theory Spec2Isabelle
  imports Main "HOL-Library.Multiset"
begin

section \<open>Python values used by main.py\<close>

text \<open>
  Console lines and vocabulary words are ASCII text here: a Python \<open>str\<close> is a
  \<open>string\<close>, one \<open>char\<close> per character. \<open>str.lower\<close> and \<open>str.isalpha\<close>
  are written out for the ASCII letters.
\<close>

datatype error = IndexError | EOFError

definition upper_letters :: string where
  "upper_letters = ''ABCDEFGHIJKLMNOPQRSTUVWXYZ''"

definition lower_letters :: string where
  "lower_letters = ''abcdefghijklmnopqrstuvwxyz''"

definition lower_char :: "char \<Rightarrow> char" where
  "lower_char c =
     (case map_of (zip upper_letters lower_letters) c of Some l \<Rightarrow> l | None \<Rightarrow> c)"

definition lower :: "string \<Rightarrow> string" where
  "lower s = map lower_char s"

definition isalpha :: "string \<Rightarrow> bool" where
  "isalpha s = (s \<noteq> [] \<and> list_all (\<lambda>c. c \<in> set (upper_letters @ lower_letters)) s)"

section \<open>guessing_game: the state of a round and one pass of the inner loop\<close>

text \<open>
  The local variables of \<open>guessing_game\<close> that a guess reads or writes.
  \<open>word_letters\<close> is \<open>list(word)\<close>, a list of one-character strings;
  \<open>hidden_word\<close> holds the two-character placeholder \<open>"_ "\<close> at every position
  not yet revealed.
\<close>

record game =
  total_score :: int
  word_letters :: "string list"
  guessed_letters :: "string list"
  hidden_word :: "string list"

definition list_of_word :: "string \<Rightarrow> string list" where
  "list_of_word word = map (\<lambda>c. [c]) word"

definition new_round :: "string \<Rightarrow> int \<Rightarrow> game" where
  "new_round word score =
     \<lparr> total_score = score,
       word_letters = list_of_word word,
       guessed_letters = [],
       hidden_word = map (\<lambda>_. ''_ '') (list_of_word word) \<rparr>"

text \<open>
  Lines 193-195: \<open>for i in range(len(word_letters)): if word_letters[i] == guess:
  hidden_word[i] = guess\<close>. Both lists are built from the same word, so the index is
  in range of \<open>hidden_word\<close> whenever the loop runs.
\<close>

definition reveal :: "string list \<Rightarrow> string \<Rightarrow> string list \<Rightarrow> string list" where
  "reveal wl guess hidden =
     fold (\<lambda>i h. if wl ! i = guess then h[i := guess] else h) [0..<length wl] hidden"

datatype verdict = Quit | Invalid | Repeated | Hit | Miss

text \<open>
  Lines 175-200, the body of the inner \<open>while\<close> after the line has been read:
  the verdict says which branch was taken, the game is the state afterwards.
\<close>

definition guess_step :: "string \<Rightarrow> game \<Rightarrow> verdict \<times> game" where
  "guess_step line g =
     (let guess = lower line in
      if guess = ''!'' then (Quit, g)
      else if length guess \<noteq> 1 \<or> \<not> isalpha guess then (Invalid, g)
      else if guess \<in> set (guessed_letters g) then (Repeated, g)
      else
        let g1 = g\<lparr>guessed_letters := guessed_letters g @ [guess]\<rparr> in
        if guess \<in> set (word_letters g1)
        then (Hit, g1\<lparr>hidden_word := reveal (word_letters g1) guess (hidden_word g1),
                       total_score := total_score g1 + 1\<rparr>)
        else (Miss, g1\<lparr>total_score := total_score g1 - 1\<rparr>))"

text \<open>Line 171, the condition of the inner loop.\<close>

definition round_open :: "game \<Rightarrow> bool" where
  "round_open g = (hidden_word g \<noteq> word_letters g \<and> total_score g > 0)"

section \<open>guessing_game: the loops, over the lines the player types\<close>

text \<open>
  What the program writes and asks, in order. \<open>AskGuess\<close> and \<open>AskAgain\<close> are the two
  calls of \<open>input\<close>; the others are calls of \<open>print\<close>.
\<close>

datatype event =
    SayBanner
  | ShowMask "string list"
  | AskGuess
  | SayThanks
  | SayInvalid
  | SayAlready
  | SayRight int
  | SaySorry int
  | SaySolved
  | SayOutOfPoints string
  | SayScore int
  | AskAgain

text \<open>
  How a loop is left: by an exception, by \<open>return\<close> out of the function, or by falling
  through with the values it leaves behind.
\<close>

datatype 'a flow = Raised error | Returned | Fell 'a

fun verdict_events :: "verdict \<Rightarrow> game \<Rightarrow> event list" where
  "verdict_events Quit g = [SayThanks]"
| "verdict_events Invalid g = [SayInvalid]"
| "verdict_events Repeated g = [SayAlready]"
| "verdict_events Hit g = [SayRight (total_score g)]"
| "verdict_events Miss g = [SaySorry (total_score g)]"

text \<open>
  Lines 171-200. \<open>input\<close> on an exhausted console raises \<open>EOFError\<close>. The result is
  what was written, and the state and the unread lines when the loop falls through.
\<close>

fun guess_loop :: "game \<Rightarrow> string list \<Rightarrow> event list \<times> (game \<times> string list) flow" where
  "guess_loop g [] =
     (if round_open g then ([ShowMask (hidden_word g), AskGuess], Raised EOFError)
      else ([], Fell (g, [])))"
| "guess_loop g (line # rest) =
     (if round_open g then
        (case guess_step line g of
           (Quit, g') \<Rightarrow> ([ShowMask (hidden_word g), AskGuess, SayThanks], Returned)
         | (v, g') \<Rightarrow>
             (case guess_loop g' rest of
                (evs, r) \<Rightarrow> (ShowMask (hidden_word g) # AskGuess # verdict_events v g' @ evs, r)))
      else ([], Fell (g, line # rest)))"

text \<open>
  Line 164, \<open>random.choice\<close>: \<open>IndexError\<close> on an empty sequence, otherwise the element
  at an index below the length; the random source gives a number \<open>r\<close>.
\<close>

definition choice :: "'a list \<Rightarrow> nat \<Rightarrow> error + 'a" where
  "choice seq r = (if seq = [] then Inl IndexError else Inr (seq ! (r mod length seq)))"

text \<open>Lines 203-209, what is printed when the inner loop has fallen through.\<close>

definition round_report :: "string \<Rightarrow> game \<Rightarrow> event list" where
  "round_report word g =
     (if hidden_word g = word_letters g then [ShowMask (hidden_word g), SaySolved]
      else [SayOutOfPoints word])
     @ [SayScore (total_score g)]"

lemma guess_loop_rest: "guess_loop g ls = (evs, Fell (g', rest)) \<Longrightarrow> length rest \<le> length ls"
proof (induction ls arbitrary: g evs)
  case Nil
  then show ?case by (simp split: if_splits)
next
  case (Cons l ls)
  show ?case
  proof (cases "round_open g")
    case False
    with Cons.prems show ?thesis by simp
  next
    case True
    obtain v g1 where st: "guess_step l g = (v, g1)" by (cases "guess_step l g")
    obtain evs1 r1 where gl: "guess_loop g1 ls = (evs1, r1)" by (cases "guess_loop g1 ls")
    from Cons.prems True st gl have "r1 = Fell (g', rest)"
      by (cases v) (simp_all)
    with gl Cons.IH have "length rest \<le> length ls" by simp
    then show ?thesis by simp
  qed
qed

text \<open>
  Lines 163-216, the outer loop: \<open>k\<close> counts the rounds, \<open>rnd k\<close> is the random number
  drawn for round \<open>k\<close>. The result is what was written and the exception that ended the
  run, if one did.
\<close>

function session_loop ::
  "string list \<Rightarrow> (nat \<Rightarrow> nat) \<Rightarrow> nat \<Rightarrow> int \<Rightarrow> string list \<Rightarrow> event list \<times> error option" where
  "session_loop words rnd k score ls =
     (if score > 0 then
        (case choice words (rnd k) of
           Inl e \<Rightarrow> ([], Some e)
         | Inr word \<Rightarrow>
            (case guess_loop (new_round word score) ls of
               (evs, Raised e) \<Rightarrow> (evs, Some e)
             | (evs, Returned) \<Rightarrow> (evs, None)
             | (evs, Fell (g, rest)) \<Rightarrow>
                 (if total_score g > 0 then
                    (case rest of
                       [] \<Rightarrow> (evs @ round_report word g @ [AskAgain], Some EOFError)
                     | a # rest' \<Rightarrow>
                         if lower a \<noteq> ''y''
                         then (evs @ round_report word g @ [AskAgain, SayThanks], None)
                         else (case session_loop words rnd (Suc k) (total_score g) rest' of
                                 (evs', r) \<Rightarrow> (evs @ round_report word g @ [AskAgain] @ evs', r)))
                  else (case session_loop words rnd (Suc k) (total_score g) rest of
                          (evs', r) \<Rightarrow> (evs @ round_report word g @ evs', r)))))
      else ([SayThanks], None))"
  by pat_completeness auto
termination
proof (relation "measure (\<lambda>(words, rnd, k, score, ls). 2 * length ls + (if score > 0 then 1 else 0))")
  show "wf (measure (\<lambda>(words, rnd, k, score, ls). 2 * length ls + (if score > 0 then 1 else 0)))"
    by simp
next
  fix words :: "string list" and rnd :: "nat \<Rightarrow> nat" and k :: nat and score :: int
    and ls :: "string list" and word x y and x2 :: "game \<times> string list" and g rest a rest'
  assume "0 < score" "choice words (rnd k) = Inr word"
    "(x, y) = guess_loop (new_round word score) ls" "y = Fell x2" "(g, rest) = x2"
    "0 < total_score g" "rest = a # rest'" "\<not> lower a \<noteq> ''y''"
  then have "guess_loop (new_round word score) ls = (x, Fell (g, a # rest'))" by simp
  from guess_loop_rest [OF this] have "length rest' < length ls" by simp
  then show "((words, rnd, Suc k, total_score g, rest'), (words, rnd, k, score, ls))
       \<in> measure (\<lambda>(words, rnd, k, score, ls). 2 * length ls + (if score > 0 then 1 else 0))"
    by simp
next
  fix words :: "string list" and rnd :: "nat \<Rightarrow> nat" and k :: nat and score :: int
    and ls :: "string list" and word x y and x2 :: "game \<times> string list" and g rest
  assume "0 < score" "choice words (rnd k) = Inr word"
    "(x, y) = guess_loop (new_round word score) ls" "y = Fell x2" "(g, rest) = x2"
    "\<not> 0 < total_score g"
  then have "guess_loop (new_round word score) ls = (x, Fell (g, rest))" by simp
  from guess_loop_rest [OF this] have "length rest \<le> length ls" by simp
  with \<open>0 < score\<close> \<open>\<not> 0 < total_score g\<close>
  show "((words, rnd, Suc k, total_score g, rest), (words, rnd, k, score, ls))
       \<in> measure (\<lambda>(words, rnd, k, score, ls). 2 * length ls + (if score > 0 then 1 else 0))"
    by simp
qed

text \<open>Lines 160-216: the banner, the score of 5, the outer loop.\<close>

definition guessing_game :: "string list \<Rightarrow> (nat \<Rightarrow> nat) \<Rightarrow> string list \<Rightarrow> event list \<times> error option" where
  "guessing_game most_common_words rnd ls =
     (case session_loop most_common_words rnd 0 5 ls of (evs, r) \<Rightarrow> (SayBanner # evs, r))"

text \<open>
  The values of the loop variables each time the condition of the inner loop (line 171)
  is evaluated while the given lines are read, the first evaluation first.
\<close>

fun round_states :: "game \<Rightarrow> string list \<Rightarrow> game list" where
  "round_states g [] = [g]"
| "round_states g (line # rest) =
     g # (if round_open g then
            (case guess_step line g of
               (Quit, g') \<Rightarrow> []
             | (v, g') \<Rightarrow> round_states g' rest)
          else [])"

text \<open>The scores the program prints after the guesses (lines 197 and 200), in order.\<close>

fun shown_scores :: "event list \<Rightarrow> int list" where
  "shown_scores [] = []"
| "shown_scores (SayRight n # evs) = n # shown_scores evs"
| "shown_scores (SaySorry n # evs) = n # shown_scores evs"
| "shown_scores (e # evs) = shown_scores evs"

section \<open>preprocess: from the raw tokens to the noun list\<close>

text \<open>
  Lines 105-106: \<open>for i in range(20): print(..., tags_list[i][0], ..., tags_list[i][1])\<close>.
  Indexing a Python list at or beyond its length raises \<open>IndexError\<close>; the pairs
  printed before that stay printed.
\<close>

datatype report = LemmaTag string string | NumTokens nat | NumNouns nat

fun print_tags :: "(string \<times> string) list \<Rightarrow> nat list \<Rightarrow> report list \<times> error option" where
  "print_tags tags_list [] = ([], None)"
| "print_tags tags_list (i # is) =
     (if i < length tags_list then
        (case print_tags tags_list is of
           (out, r) \<Rightarrow> (LemmaTag (fst (tags_list ! i)) (snd (tags_list ! i)) # out, r))
      else ([], Some IndexError))"

definition first_20 :: "(string \<times> string) list \<Rightarrow> report list \<times> error option" where
  "first_20 tags_list = print_tags tags_list [0..<20]"

text \<open>Lines 109-112.\<close>

definition nouns_of :: "(string \<times> string) list \<Rightarrow> string list" where
  "nouns_of tags_list =
     fold (\<lambda>index noun_list.
             if snd (tags_list ! index) = ''NN'' then noun_list @ [fst (tags_list ! index)]
             else noun_list)
          [0..<length tags_list] []"

text \<open>
  Lines 88-117, from the tokens that \<open>lexi_div\<close> returns. The NLTK calls are parameters:
  the stopword list, the lemmatizer and the tagger. \<open>set_order\<close> stands for
  \<open>list(set(lemmas))\<close>: it lists the distinct lemmas in the iteration order of a Python
  set, which the interpreter's string hashing decides anew in every run.
\<close>

definition preprocess ::
  "string list \<Rightarrow> (string \<Rightarrow> string) \<Rightarrow> (string list \<Rightarrow> string list) \<Rightarrow>
   (string list \<Rightarrow> (string \<times> string) list) \<Rightarrow> string list \<Rightarrow>
   report list \<times> (error + string list \<times> string list)" where
  "preprocess stopWords lemmatize set_order pos_tag raw_tokens =
     (let alpha_tokens = filter (\<lambda>token. isalpha token \<and> length token > 5) raw_tokens;
          tokens = filter (\<lambda>token. token \<notin> set stopWords) alpha_tokens;
          lemmas = map lemmatize tokens;
          unique_lemmas = set_order lemmas;
          tags_list = pos_tag unique_lemmas
      in case first_20 tags_list of
           (out, Some e) \<Rightarrow> (out, Inl e)
         | (out, None) \<Rightarrow>
             (let noun_list = nouns_of tags_list
              in (out @ [NumTokens (length tokens), NumNouns (length noun_list)],
                  Inr (tokens, noun_list))))"

section \<open>make_dict: counting and ranking\<close>

text \<open>
  A Python \<open>dict\<close> keeps its keys in the order of their first insertion, so it is an
  association list: assigning to a key that is present replaces the value in place,
  assigning to a new key appends.
\<close>

fun dict_set :: "'k \<Rightarrow> 'v \<Rightarrow> ('k \<times> 'v) list \<Rightarrow> ('k \<times> 'v) list" where
  "dict_set k v [] = [(k, v)]"
| "dict_set k v (p # d) = (if fst p = k then (k, v) # d else p # dict_set k v d)"

text \<open>Lines 134-135.\<close>

definition zero_counts :: "string list \<Rightarrow> (string \<times> int) list" where
  "zero_counts noun_list = fold (\<lambda>noun noun_dict. dict_set noun 0 noun_dict) noun_list []"

text \<open>Lines 139-140, one pass of the loop over the tokens.\<close>

definition count_token :: "string \<Rightarrow> (string \<times> int) list \<Rightarrow> (string \<times> int) list" where
  "count_token token noun_dict =
     (case map_of noun_dict token of
        None \<Rightarrow> noun_dict
      | Some c \<Rightarrow> dict_set token (c + 1) noun_dict)"

text \<open>Lines 131-140: the dictionary before it is sorted.\<close>

definition count_nouns :: "string list \<Rightarrow> string list \<Rightarrow> (string \<times> int) list" where
  "count_nouns tokens noun_list = fold count_token tokens (zero_counts noun_list)"

text \<open>
  Lines 143-150. \<open>np.argsort\<close> is a parameter: NumPy's default sort promises indices
  that put the values in ascending order and nothing about equal values. \<open>[::-1]\<close>
  reverses them; the comprehension inserts key and value at each index into a new
  dictionary; \<open>[:50]\<close> keeps the first 50 keys, which the function prints and
  returns. An index beyond the list would raise \<open>IndexError\<close>.
\<close>

definition make_dict :: "(int list \<Rightarrow> nat list) \<Rightarrow> string list \<Rightarrow> string list \<Rightarrow> error + string list" where
  "make_dict argsort tokens noun_list =
     (let noun_dict = count_nouns tokens noun_list;
          sorted_value_index = rev (argsort (map snd noun_dict))
      in if list_all (\<lambda>i. i < length noun_dict) sorted_value_index
         then Inr (take 50 (map fst
                (fold (\<lambda>i d. dict_set (fst (noun_dict ! i)) (snd (noun_dict ! i)) d)
                      sorted_value_index [])))
         else Inl IndexError)"

text \<open>
  What \<open>np.argsort\<close> promises for the values \<open>vs\<close>: every index below the length
  once, the values at the indices ascending.
\<close>

definition argsort_ok :: "(int list \<Rightarrow> nat list) \<Rightarrow> int list \<Rightarrow> bool" where
  "argsort_ok argsort vs =
     (sort (argsort vs) = [0..<length vs] \<and> sorted (map (\<lambda>i. vs ! i) (argsort vs)))"

text \<open>
  The indices an insertion sort returns, equal values in index order: one function that
  meets the contract. It stands for \<open>np.argsort\<close> in the examples below, on lists of
  at most two values.
\<close>

definition insertion_argsort :: "int list \<Rightarrow> nat list" where
  "insertion_argsort vs = sort_key (\<lambda>i. vs ! i) [0..<length vs]"

text \<open>Lines 228-231 of \<open>main\<close>: the ranked vocabulary of a run.\<close>

definition ranked_vocabulary ::
  "string list \<Rightarrow> (string \<Rightarrow> string) \<Rightarrow> (string list \<Rightarrow> string list) \<Rightarrow>
   (string list \<Rightarrow> (string \<times> string) list) \<Rightarrow> (int list \<Rightarrow> nat list) \<Rightarrow> string list \<Rightarrow>
   error + string list" where
  "ranked_vocabulary stopWords lemmatize set_order pos_tag argsort raw_tokens =
     (case snd (preprocess stopWords lemmatize set_order pos_tag raw_tokens) of
        Inl e \<Rightarrow> Inl e
      | Inr (tokens, noun_list) \<Rightarrow> make_dict argsort tokens noun_list)"

section \<open>Invariants and contracts used in the proofs\<close>

text \<open>
  A mask is well formed when it is as long as the word and every position holds either
  the placeholder or the letter of the word at that position.
\<close>

definition masked :: "game \<Rightarrow> bool" where
  "masked g = list_all2 (\<lambda>h w. h = ''_ '' \<or> h = w) (hidden_word g) (word_letters g)"

text \<open>The score is never negative, and it is positive whenever the mask shows the whole word.\<close>

definition scored :: "game \<Rightarrow> bool" where
  "scored g = (0 \<le> total_score g \<and> (hidden_word g = word_letters g \<longrightarrow> 1 \<le> total_score g))"

text \<open>A stable \<open>argsort\<close> leaves indices of equal values in ascending order.\<close>

definition argsort_stable :: "(int list \<Rightarrow> nat list) \<Rightarrow> int list \<Rightarrow> bool" where
  "argsort_stable argsort vs = sorted_wrt (\<lambda>i j. vs ! i = vs ! j \<longrightarrow> i < j) (argsort vs)"

text \<open>The definitions a concrete run unfolds.\<close>

lemmas eval_defs = new_round_def list_of_word_def round_open_def guess_step_def lower_def
  lower_char_def upper_letters_def lower_letters_def isalpha_def reveal_def round_report_def
  choice_def Let_def

section \<open>One guess\<close>

lemma reveal_fold_length:
  "length (fold (\<lambda>i h. if wl ! i = guess then h[i := guess] else h) is hidden) = length hidden"
  by (induction "is" arbitrary: hidden) auto

lemma length_reveal: "length (reveal wl guess hidden) = length hidden"
  by (simp add: reveal_def reveal_fold_length)

lemma reveal_fold_nth:
  "i < length hidden \<Longrightarrow>
   fold (\<lambda>i h. if wl ! i = guess then h[i := guess] else h) [0..<n] hidden ! i
     = (if i < n \<and> wl ! i = guess then guess else hidden ! i)"
proof (induction n)
  case 0
  then show ?case by simp
next
  case (Suc n)
  then show ?case
    by (auto simp: reveal_fold_length nth_list_update less_Suc_eq)
qed

lemma reveal_nth:
  "i < length hidden \<Longrightarrow> i < length wl \<Longrightarrow>
   reveal wl guess hidden ! i = (if wl ! i = guess then guess else hidden ! i)"
  by (simp add: reveal_def reveal_fold_nth)

lemma guess_step_hit:
  assumes "lower line \<noteq> ''!''" "length (lower line) = 1" "isalpha (lower line)"
    "lower line \<notin> set (guessed_letters g)" "lower line \<in> set (word_letters g)"
  shows "guess_step line g =
      (Hit, g\<lparr>guessed_letters := guessed_letters g @ [lower line],
              hidden_word := reveal (word_letters g) (lower line) (hidden_word g),
              total_score := total_score g + 1\<rparr>)"
  using assms by (simp add: guess_step_def Let_def)

lemma guess_step_miss:
  assumes "lower line \<noteq> ''!''" "length (lower line) = 1" "isalpha (lower line)"
    "lower line \<notin> set (guessed_letters g)" "lower line \<notin> set (word_letters g)"
  shows "guess_step line g =
      (Miss, g\<lparr>guessed_letters := guessed_letters g @ [lower line],
               total_score := total_score g - 1\<rparr>)"
  using assms by (simp add: guess_step_def Let_def)

lemma guess_step_cases:
  obtains (quit) "guess_step line g = (Quit, g)"
  | (invalid) "guess_step line g = (Invalid, g)"
  | (repeated) "guess_step line g = (Repeated, g)"
  | (hit) "lower line \<in> set (word_letters g)"
      "guess_step line g =
        (Hit, g\<lparr>guessed_letters := guessed_letters g @ [lower line],
                hidden_word := reveal (word_letters g) (lower line) (hidden_word g),
                total_score := total_score g + 1\<rparr>)"
  | (miss) "lower line \<notin> set (word_letters g)"
      "guess_step line g =
        (Miss, g\<lparr>guessed_letters := guessed_letters g @ [lower line],
                 total_score := total_score g - 1\<rparr>)"
proof (cases "lower line = ''!''")
  case True
  then have "guess_step line g = (Quit, g)" by (simp add: guess_step_def)
  then show ?thesis by (rule quit)
next
  case nq: False
  show ?thesis
  proof (cases "length (lower line) \<noteq> 1 \<or> \<not> isalpha (lower line)")
    case True
    with nq have "guess_step line g = (Invalid, g)" by (auto simp add: guess_step_def)
    then show ?thesis by (rule invalid)
  next
    case ok: False
    show ?thesis
    proof (cases "lower line \<in> set (guessed_letters g)")
      case True
      with nq ok have "guess_step line g = (Repeated, g)" by (simp add: guess_step_def)
      then show ?thesis by (rule repeated)
    next
      case new: False
      show ?thesis
      proof (cases "lower line \<in> set (word_letters g)")
        case True
        with nq ok new show ?thesis by (intro hit guess_step_hit) simp_all
      next
        case False
        with nq ok new show ?thesis by (intro miss guess_step_miss) simp_all
      qed
    qed
  qed
qed

lemma isalpha_not_quit: "isalpha s \<Longrightarrow> s \<noteq> ''!''"
  by (auto simp: isalpha_def upper_letters_def lower_letters_def)

text \<open>
  C1, as amended. A new single alphabetic letter that occurs in the secret word is a hit:
  the score grows by 1 and every position of the mask whose letter it is shows it, the
  other positions staying as they were. One that does not occur is a miss: the score
  drops by 1 and the mask stays. For the word "garden" and the score 5, the lines
  g, a, x, r, d, e, n give the scores 5, 6, 7, 6, 7, 8, 9, 10, and the round is reported
  solved with the score 10.
\<close>

theorem guess_scoring:
  assumes "length (lower line) = 1" and "isalpha (lower line)"
    and "lower line \<notin> set (guessed_letters g)"
    and "length (hidden_word g) = length (word_letters g)"
  shows "(lower line \<in> set (word_letters g) \<longrightarrow>
            fst (guess_step line g) = Hit \<and>
            total_score (snd (guess_step line g)) = total_score g + 1 \<and>
            length (hidden_word (snd (guess_step line g))) = length (hidden_word g) \<and>
            (\<forall>i < length (word_letters g).
               hidden_word (snd (guess_step line g)) ! i
                 = (if word_letters g ! i = lower line then lower line else hidden_word g ! i))) \<and>
         (lower line \<notin> set (word_letters g) \<longrightarrow>
            fst (guess_step line g) = Miss \<and>
            total_score (snd (guess_step line g)) = total_score g - 1 \<and>
            hidden_word (snd (guess_step line g)) = hidden_word g) \<and>
         5 # shown_scores (fst (guess_loop (new_round ''garden'' 5)
               [''g'', ''a'', ''x'', ''r'', ''d'', ''e'', ''n'']))
           = [5, 6, 7, 6, 7, 8, 9, 10] \<and>
         (\<exists>g'. snd (guess_loop (new_round ''garden'' 5)
                  [''g'', ''a'', ''x'', ''r'', ''d'', ''e'', ''n'']) = Fell (g', []) \<and>
               round_report ''garden'' g'
                 = [ShowMask [''g'', ''a'', ''r'', ''d'', ''e'', ''n''], SaySolved, SayScore 10])"
proof -
  from assms(2) have nq: "lower line \<noteq> ''!''" by (rule isalpha_not_quit)
  have hit: "fst (guess_step line g) = Hit \<and>
            total_score (snd (guess_step line g)) = total_score g + 1 \<and>
            length (hidden_word (snd (guess_step line g))) = length (hidden_word g) \<and>
            (\<forall>i < length (word_letters g).
               hidden_word (snd (guess_step line g)) ! i
                 = (if word_letters g ! i = lower line then lower line else hidden_word g ! i))"
    if "lower line \<in> set (word_letters g)"
    using guess_step_hit [OF nq assms(1,2,3) that] assms(4)
    by (simp add: length_reveal reveal_nth)
  have miss: "fst (guess_step line g) = Miss \<and>
            total_score (snd (guess_step line g)) = total_score g - 1 \<and>
            hidden_word (snd (guess_step line g)) = hidden_word g"
    if "lower line \<notin> set (word_letters g)"
    using guess_step_miss [OF nq assms(1,2,3) that] by simp
  have run: "guess_loop (new_round ''garden'' 5) [''g'', ''a'', ''x'', ''r'', ''d'', ''e'', ''n'']
    = ([ShowMask [''_ '', ''_ '', ''_ '', ''_ '', ''_ '', ''_ ''], AskGuess, SayRight 6,
        ShowMask [''g'', ''_ '', ''_ '', ''_ '', ''_ '', ''_ ''], AskGuess, SayRight 7,
        ShowMask [''g'', ''a'', ''_ '', ''_ '', ''_ '', ''_ ''], AskGuess, SaySorry 6,
        ShowMask [''g'', ''a'', ''_ '', ''_ '', ''_ '', ''_ ''], AskGuess, SayRight 7,
        ShowMask [''g'', ''a'', ''r'', ''_ '', ''_ '', ''_ ''], AskGuess, SayRight 8,
        ShowMask [''g'', ''a'', ''r'', ''d'', ''_ '', ''_ ''], AskGuess, SayRight 9,
        ShowMask [''g'', ''a'', ''r'', ''d'', ''e'', ''_ ''], AskGuess, SayRight 10],
       Fell (\<lparr>total_score = 10,
               word_letters = [''g'', ''a'', ''r'', ''d'', ''e'', ''n''],
               guessed_letters = [''g'', ''a'', ''x'', ''r'', ''d'', ''e'', ''n''],
               hidden_word = [''g'', ''a'', ''r'', ''d'', ''e'', ''n'']\<rparr>, []))"
    by code_simp
  have "5 # shown_scores (fst (guess_loop (new_round ''garden'' 5)
               [''g'', ''a'', ''x'', ''r'', ''d'', ''e'', ''n'']))
           = [5, 6, 7, 6, 7, 8, 9, 10]"
    by (simp only: run fst_conv) simp
  moreover have "\<exists>g'. snd (guess_loop (new_round ''garden'' 5)
                  [''g'', ''a'', ''x'', ''r'', ''d'', ''e'', ''n'']) = Fell (g', []) \<and>
               round_report ''garden'' g'
                 = [ShowMask [''g'', ''a'', ''r'', ''d'', ''e'', ''n''], SaySolved, SayScore 10]"
    by (simp only: run snd_conv) (simp add: round_report_def)
  ultimately show ?thesis using hit miss by blast
qed

theorem guess_scoring_witness:
  "length (lower ''A'') = 1 \<and> isalpha (lower ''A'') \<and>
   lower ''A'' \<notin> set (guessed_letters (new_round ''garden'' 5)) \<and>
   length (hidden_word (new_round ''garden'' 5)) = length (word_letters (new_round ''garden'' 5)) \<and>
   lower ''A'' \<in> set (word_letters (new_round ''garden'' 5)) \<and>
   fst (guess_step ''A'' (new_round ''garden'' 5)) = Hit \<and>
   total_score (snd (guess_step ''A'' (new_round ''garden'' 5))) = 6"
proof -
  have h: "length (lower ''A'') = 1" "isalpha (lower ''A'')"
    "lower ''A'' \<notin> set (guessed_letters (new_round ''garden'' 5))"
    "length (hidden_word (new_round ''garden'' 5)) = length (word_letters (new_round ''garden'' 5))"
    by (simp_all add: eval_defs)
  have m: "lower ''A'' \<in> set (word_letters (new_round ''garden'' 5))"
    by (simp add: eval_defs)
  from guess_scoring [OF h] m
  have "fst (guess_step ''A'' (new_round ''garden'' 5)) = Hit \<and>
        total_score (snd (guess_step ''A'' (new_round ''garden'' 5))) = total_score (new_round ''garden'' 5) + 1"
    by blast
  with h m show ?thesis by (simp add: new_round_def)
qed

text \<open>
  The scores of that run are not 5, 6, 6, 5, 6, 7, 8, 9, and the round does not end with
  the score 9: the second guess, a hit, already brings the score to 7.
\<close>

theorem garden_scores_differ:
  "5 # shown_scores (fst (guess_loop (new_round ''garden'' 5)
         [''g'', ''a'', ''x'', ''r'', ''d'', ''e'', ''n''])) \<noteq> [5, 6, 6, 5, 6, 7, 8, 9] \<and>
   snd (guess_loop (new_round ''garden'' 5) [''g'', ''a'', ''x'', ''r'', ''d'', ''e'', ''n''])
     = Fell (\<lparr>total_score = 10,
               word_letters = [''g'', ''a'', ''r'', ''d'', ''e'', ''n''],
               guessed_letters = [''g'', ''a'', ''x'', ''r'', ''d'', ''e'', ''n''],
               hidden_word = [''g'', ''a'', ''r'', ''d'', ''e'', ''n'']\<rparr>, [])"
  by code_simp

subsection \<open>Rejected guesses\<close>

lemma guess_step_rejected:
  assumes "length (lower line) \<noteq> 1 \<or> \<not> isalpha (lower line) \<or> lower line \<in> set (guessed_letters g)"
  shows "snd (guess_step line g) = g"
    and "lower line \<noteq> ''!'' \<Longrightarrow> fst (guess_step line g) = Invalid \<or> fst (guess_step line g) = Repeated"
  using assms by (auto simp: guess_step_def Let_def)

text \<open>
  C7. A line that is not exactly one alphabetic character, or that repeats a letter
  already guessed, leaves the score, the mask and the guessed letters as they were; unless
  it is the quit sign \<open>!\<close>, which ends the session, the program prints a notice and the
  inner loop goes on from the same state with the next line.
\<close>

theorem rejected_guess_changes_nothing:
  assumes "length (lower line) \<noteq> 1 \<or> \<not> isalpha (lower line) \<or> lower line \<in> set (guessed_letters g)"
  shows "snd (guess_step line g) = g \<and>
         (lower line \<noteq> ''!'' \<and> round_open g \<longrightarrow>
            (\<exists>notice. (notice = SayInvalid \<or> notice = SayAlready) \<and>
               guess_loop g (line # rest) =
                 (ShowMask (hidden_word g) # AskGuess # notice # fst (guess_loop g rest),
                  snd (guess_loop g rest))))"
proof -
  have same: "snd (guess_step line g) = g"
    using assms by (rule guess_step_rejected(1))
  moreover
  { assume nq: "lower line \<noteq> ''!''" and op: "round_open g"
    from guess_step_rejected(2) [OF assms nq]
    have "\<exists>notice. (notice = SayInvalid \<or> notice = SayAlready) \<and>
               guess_loop g (line # rest) =
                 (ShowMask (hidden_word g) # AskGuess # notice # fst (guess_loop g rest),
                  snd (guess_loop g rest))"
    proof
      assume "fst (guess_step line g) = Invalid"
      with same have "guess_step line g = (Invalid, g)" by (metis prod.collapse)
      with op show ?thesis by (simp split: prod.splits)
    next
      assume "fst (guess_step line g) = Repeated"
      with same have "guess_step line g = (Repeated, g)" by (metis prod.collapse)
      with op show ?thesis by (simp split: prod.splits)
    qed }
  ultimately show ?thesis by blast
qed

theorem rejected_guess_changes_nothing_witness:
  "lower ''G'' \<in> set (guessed_letters ((new_round ''garden'' 5)\<lparr>guessed_letters := [''g'']\<rparr>)) \<and>
   snd (guess_step ''G'' ((new_round ''garden'' 5)\<lparr>guessed_letters := [''g'']\<rparr>))
     = (new_round ''garden'' 5)\<lparr>guessed_letters := [''g'']\<rparr>"
  using rejected_guess_changes_nothing
    [of "''G''" "(new_round ''garden'' 5)\<lparr>guessed_letters := [''g'']\<rparr>" "[]"]
  by (simp add: lower_def lower_char_def upper_letters_def lower_letters_def new_round_def)

section \<open>The states of a round\<close>

lemma masked_nth:
  "masked g \<longleftrightarrow>
     length (hidden_word g) = length (word_letters g) \<and>
     (\<forall>i < length (word_letters g).
        hidden_word g ! i = ''_ '' \<or> hidden_word g ! i = word_letters g ! i)"
  by (auto simp: masked_def list_all2_conv_all_nth)

lemma masked_new_round: "masked (new_round word score)"
  by (simp add: masked_nth new_round_def)

lemma masked_step:
  assumes "masked g" "guess_step line g = (v, g')"
  shows "masked g'" and "word_letters g' = word_letters g"
    and "\<forall>i < length (word_letters g). hidden_word g ! i \<noteq> ''_ '' \<longrightarrow> hidden_word g' ! i = hidden_word g ! i"
proof -
  show "masked g'"
    using assms
    by (cases line g rule: guess_step_cases) (fastforce simp: masked_nth length_reveal reveal_nth)+
  show "word_letters g' = word_letters g"
    using assms by (cases line g rule: guess_step_cases) auto
  show "\<forall>i < length (word_letters g). hidden_word g ! i \<noteq> ''_ '' \<longrightarrow> hidden_word g' ! i = hidden_word g ! i"
    using assms
    by (cases line g rule: guess_step_cases) (auto simp: masked_nth length_reveal reveal_nth)
qed

lemma round_states_Cons:
  "round_states g (l # ls) =
     g # (if round_open g \<and> fst (guess_step l g) \<noteq> Quit
          then round_states (snd (guess_step l g)) ls else [])"
proof -
  obtain v g1 where st: "guess_step l g = (v, g1)" by (cases "guess_step l g")
  then show ?thesis by (cases v) simp_all
qed

lemma round_states_head: "g \<in> set (round_states g ls)"
  by (cases ls) (simp_all add: round_states_Cons del: round_states.simps(2))

lemma round_states_masked:
  "masked g \<Longrightarrow> s \<in> set (round_states g ls) \<Longrightarrow>
   masked s \<and> word_letters s = word_letters g \<and>
   (\<forall>p < length (word_letters g). hidden_word g ! p \<noteq> ''_ '' \<longrightarrow> hidden_word s ! p = hidden_word g ! p)"
proof (induction ls arbitrary: g)
  case Nil
  then show ?case by simp
next
  case (Cons l ls)
  show ?case
  proof (cases "s = g")
    case True
    with Cons.prems(1) show ?thesis by simp
  next
    case False
    obtain v g1 where st: "guess_step l g = (v, g1)" by (cases "guess_step l g")
    from False Cons.prems(2) st have "s \<in> set (round_states g1 ls)"
      by (simp only: round_states_Cons) (simp split: if_splits)
    moreover from masked_step [OF Cons.prems(1) st]
    have m1: "masked g1" and w1: "word_letters g1 = word_letters g"
      and k1: "\<forall>i < length (word_letters g). hidden_word g ! i \<noteq> ''_ '' \<longrightarrow> hidden_word g1 ! i = hidden_word g ! i"
      by blast+
    ultimately have "masked s \<and> word_letters s = word_letters g1 \<and>
      (\<forall>p < length (word_letters g1). hidden_word g1 ! p \<noteq> ''_ '' \<longrightarrow> hidden_word s ! p = hidden_word g1 ! p)"
      using Cons.IH by blast
    with w1 k1 show ?thesis by auto
  qed
qed

lemma round_states_drop:
  "i < length (round_states g ls) \<Longrightarrow>
   drop i (round_states g ls) = round_states (round_states g ls ! i) (drop i ls)"
proof (induction ls arbitrary: g i)
  case Nil
  then show ?case by simp
next
  case (Cons l ls)
  show ?case
  proof (cases i)
    case 0
    then show ?thesis by simp
  next
    case (Suc i')
    from Cons.prems Suc
    have tl: "round_states g (l # ls) = g # round_states (snd (guess_step l g)) ls"
      by (simp only: round_states_Cons) (simp split: if_splits)
    with Cons.prems Suc have "i' < length (round_states (snd (guess_step l g)) ls)" by simp
    from Cons.IH [OF this] tl Suc show ?thesis by simp
  qed
qed

lemma round_states_later:
  assumes "i \<le> j" "j < length (round_states g ls)"
  shows "round_states g ls ! j \<in> set (round_states (round_states g ls ! i) (drop i ls))"
proof -
  from assms have i: "i < length (round_states g ls)" by simp
  have "round_states g ls ! j = drop i (round_states g ls) ! (j - i)"
    using assms by simp
  also have "\<dots> \<in> set (drop i (round_states g ls))"
    using assms by (intro nth_mem) simp
  finally show ?thesis by (simp add: round_states_drop [OF i])
qed

text \<open>
  C8. Each time the condition of the inner loop is evaluated in a round, the mask is as
  long as the secret word, and a position that shows its letter at one evaluation shows
  the same letter at every later one.
\<close>

theorem mask_invariant:
  assumes "i \<le> j" and "j < length (round_states (new_round word score) ls)"
  shows "length (hidden_word (round_states (new_round word score) ls ! j)) = length word \<and>
         word_letters (round_states (new_round word score) ls ! j) = list_of_word word \<and>
         (\<forall>p < length word.
            hidden_word (round_states (new_round word score) ls ! i) ! p \<noteq> ''_ '' \<longrightarrow>
            hidden_word (round_states (new_round word score) ls ! j) ! p
              = hidden_word (round_states (new_round word score) ls ! i) ! p)"
proof -
  let ?g0 = "new_round word score"
  let ?ss = "round_states ?g0 ls"
  have w0: "word_letters ?g0 = list_of_word word" by (simp add: new_round_def)
  have len: "length (list_of_word word) = length word" by (simp add: list_of_word_def)
  from assms have "?ss ! i \<in> set ?ss" "?ss ! j \<in> set ?ss" by simp_all
  from round_states_masked [OF masked_new_round this(1)] round_states_masked [OF masked_new_round this(2)]
  have mi: "masked (?ss ! i)" and wi: "word_letters (?ss ! i) = list_of_word word"
    and mj: "masked (?ss ! j)" and wj: "word_letters (?ss ! j) = list_of_word word"
    using w0 by simp_all
  from round_states_masked [OF mi round_states_later [OF assms]] wi len
  have "\<forall>p < length word. hidden_word (?ss ! i) ! p \<noteq> ''_ '' \<longrightarrow>
          hidden_word (?ss ! j) ! p = hidden_word (?ss ! i) ! p"
    by simp
  moreover from mj wj len have "length (hidden_word (?ss ! j)) = length word"
    by (simp add: masked_nth)
  ultimately show ?thesis using wj by blast
qed

theorem mask_invariant_witness:
  "(1::nat) \<le> 2 \<and> 2 < length (round_states (new_round ''garden'' 5) [''g'', ''x'']) \<and>
   length (hidden_word (round_states (new_round ''garden'' 5) [''g'', ''x''] ! 2)) = length ''garden'' \<and>
   hidden_word (round_states (new_round ''garden'' 5) [''g'', ''x''] ! 1) ! 0 = ''g'' \<and>
   hidden_word (round_states (new_round ''garden'' 5) [''g'', ''x''] ! 2) ! 0 = ''g''"
proof -
  have a: "(1::nat) \<le> 2" by simp
  have b: "2 < length (round_states (new_round ''garden'' 5) [''g'', ''x''])" by code_simp
  have c: "hidden_word (round_states (new_round ''garden'' 5) [''g'', ''x''] ! 1) ! 0 = ''g''"
    by code_simp
  from mask_invariant [OF a b]
  have "length (hidden_word (round_states (new_round ''garden'' 5) [''g'', ''x''] ! 2)) = length ''garden''"
    and "\<forall>p < length ''garden''.
            hidden_word (round_states (new_round ''garden'' 5) [''g'', ''x''] ! 1) ! p \<noteq> ''_ '' \<longrightarrow>
            hidden_word (round_states (new_round ''garden'' 5) [''g'', ''x''] ! 2) ! p
              = hidden_word (round_states (new_round ''garden'' 5) [''g'', ''x''] ! 1) ! p"
    by blast+
  from this(2) c have "hidden_word (round_states (new_round ''garden'' 5) [''g'', ''x''] ! 2) ! 0 = ''g''"
    by simp
  with a b c \<open>length (hidden_word (round_states (new_round ''garden'' 5) [''g'', ''x''] ! 2)) = length ''garden''\<close>
  show ?thesis by blast
qed

section \<open>The score and the end of a round\<close>

lemma scored_new_round: "0 < score \<Longrightarrow> scored (new_round word score)"
  by (simp add: scored_def new_round_def)

lemma scored_step:
  assumes "scored g" "round_open g" "guess_step line g = (v, g')"
  shows "scored g'"
  using assms
  by (cases line g rule: guess_step_cases) (auto simp: scored_def round_open_def)

lemma round_states_scored:
  "scored g \<Longrightarrow> s \<in> set (round_states g ls) \<Longrightarrow> scored s"
proof (induction ls arbitrary: g)
  case Nil
  then show ?case by simp
next
  case (Cons l ls)
  show ?case
  proof (cases "s = g")
    case True
    with Cons.prems(1) show ?thesis by simp
  next
    case False
    with Cons.prems(2)
    have op: "round_open g" and "s \<in> set (round_states (snd (guess_step l g)) ls)"
      by (simp_all only: round_states_Cons) (simp_all split: if_splits)
    moreover have "scored (snd (guess_step l g))"
      using scored_step [OF Cons.prems(1) op] by (metis prod.collapse)
    ultimately show ?thesis using Cons.IH by blast
  qed
qed

lemma guess_loop_closed: "\<not> round_open g \<Longrightarrow> guess_loop g ls = ([], Fell (g, ls))"
  by (cases ls) simp_all

lemma guess_loop_Cons:
  assumes "round_open g" "guess_step l g = (v, g')" "v \<noteq> Quit"
  shows "guess_loop g (l # ls) =
     (ShowMask (hidden_word g) # AskGuess # verdict_events v g' @ fst (guess_loop g' ls),
      snd (guess_loop g' ls))"
  using assms by (cases v) (simp_all split: prod.splits)

lemma guess_loop_fell:
  "guess_loop g ls = (evs, Fell (g', rest)) \<Longrightarrow> g' \<in> set (round_states g ls) \<and> \<not> round_open g'"
proof (induction ls arbitrary: g evs)
  case Nil
  then show ?case by (simp split: if_splits)
next
  case (Cons l ls)
  show ?case
  proof (cases "round_open g")
    case False
    with Cons.prems show ?thesis by (simp add: guess_loop_closed round_states_head del: round_states.simps)
  next
    case True
    obtain v g1 where st: "guess_step l g = (v, g1)" by (cases "guess_step l g")
    show ?thesis
    proof (cases "v = Quit")
      case True
      with \<open>round_open g\<close> st Cons.prems show ?thesis by simp
    next
      case False
      from guess_loop_Cons [OF \<open>round_open g\<close> st False] Cons.prems
      have "guess_loop g1 ls = (fst (guess_loop g1 ls), Fell (g', rest))"
        by (metis prod.collapse snd_conv)
      from Cons.IH [OF this] \<open>round_open g\<close> st False show ?thesis
        by (simp only: round_states_Cons) simp
    qed
  qed
qed

lemma session_loop_fell:
  assumes "0 < score" "choice words (rnd k) = Inr word"
    "guess_loop (new_round word score) ls = (evs, Fell (g, rest))"
  shows "total_score g \<le> 0 \<Longrightarrow>
           session_loop words rnd k score ls = (evs @ round_report word g @ [SayThanks], None)"
    and "0 < total_score g \<Longrightarrow> \<exists>evs' r.
           session_loop words rnd k score ls = (evs @ round_report word g @ [AskAgain] @ evs', r)"
proof -
  show "session_loop words rnd k score ls = (evs @ round_report word g @ [SayThanks], None)"
    if "total_score g \<le> 0"
    using assms that by (simp add: session_loop.simps [of words rnd k score ls]
        session_loop.simps [of words rnd "Suc k" "total_score g" rest])
  show "\<exists>evs' r. session_loop words rnd k score ls = (evs @ round_report word g @ [AskAgain] @ evs', r)"
    if "0 < total_score g"
    using assms that
    by (simp add: session_loop.simps [of words rnd k score ls] split: list.splits prod.splits)
qed

text \<open>
  C2. When a guess in an open round leaves the score at 0, the inner loop prints the
  score and stops with the remaining lines unread; the round is reported as out of
  points; and a session whose round ends in that state prints the report and the
  farewell and ends, without asking whether to play again.
\<close>

theorem score_zero_ends_session:
  assumes "round_open g" and "guess_step line g = (v, g')" and "total_score g' = 0"
  shows "guess_loop g (line # rest)
           = ([ShowMask (hidden_word g), AskGuess, SaySorry 0], Fell (g', rest)) \<and>
         round_report word g' = [SayOutOfPoints word, SayScore 0] \<and>
         (0 < score \<and> choice words (rnd k) = Inr word \<and>
          guess_loop (new_round word score) ls = (evs, Fell (g', rest')) \<longrightarrow>
            session_loop words rnd k score ls
              = (evs @ [SayOutOfPoints word, SayScore 0, SayThanks], None))"
proof -
  from assms have miss: "v = Miss" and hid: "hidden_word g' \<noteq> word_letters g'"
    by (cases line g rule: guess_step_cases; auto simp: round_open_def)+
  from assms(3) have closed: "\<not> round_open g'" by (simp add: round_open_def)
  have "guess_loop g (line # rest)
           = ([ShowMask (hidden_word g), AskGuess, SaySorry 0], Fell (g', rest))"
    using guess_loop_Cons [OF assms(1) assms(2), of rest] miss assms(3)
    by (simp add: guess_loop_closed [OF closed])
  moreover have rep: "round_report word g' = [SayOutOfPoints word, SayScore 0]"
    using hid assms(3) by (simp add: round_report_def)
  moreover have "session_loop words rnd k score ls
              = (evs @ [SayOutOfPoints word, SayScore 0, SayThanks], None)"
    if "0 < score" "choice words (rnd k) = Inr word"
       "guess_loop (new_round word score) ls = (evs, Fell (g', rest'))"
    using session_loop_fell(1) [of score words rnd k word ls evs g' rest'] that assms(3) rep by simp
  ultimately show ?thesis by blast
qed

theorem score_zero_ends_session_witness:
  "round_open (new_round ''forest'' 1) \<and>
   guess_step ''q'' (new_round ''forest'' 1)
     = (Miss, (new_round ''forest'' 1)\<lparr>guessed_letters := [''q''], total_score := 0\<rparr>) \<and>
   guess_loop (new_round ''forest'' 1) [''q'', ''e'']
     = ([ShowMask [''_ '', ''_ '', ''_ '', ''_ '', ''_ '', ''_ ''], AskGuess, SaySorry 0],
        Fell ((new_round ''forest'' 1)\<lparr>guessed_letters := [''q''], total_score := 0\<rparr>, [''e''])) \<and>
   session_loop [''forest''] (\<lambda>k. 0) 0 1 [''q'', ''e'']
     = ([ShowMask [''_ '', ''_ '', ''_ '', ''_ '', ''_ '', ''_ ''], AskGuess, SaySorry 0,
         SayOutOfPoints ''forest'', SayScore 0, SayThanks], None)"
proof -
  let ?g = "new_round ''forest'' 1"
  let ?g' = "?g\<lparr>guessed_letters := [''q''], total_score := 0\<rparr>"
  have op: "round_open ?g" by (simp add: eval_defs)
  have st: "guess_step ''q'' ?g = (Miss, ?g')" by (simp add: eval_defs)
  have z: "total_score ?g' = 0" by simp
  have ch: "choice [''forest''] ((\<lambda>k. 0) (0::nat)) = Inr ''forest''" by (simp add: choice_def)
  note th = score_zero_ends_session [OF op st z, of "[''e'']" "''forest''" 1 "[''forest'']" "\<lambda>k. 0" 0
      "[''q'', ''e'']" "[ShowMask [''_ '', ''_ '', ''_ '', ''_ '', ''_ '', ''_ ''], AskGuess, SaySorry 0]" "[''e'']"]
  from th have gl: "guess_loop ?g [''q'', ''e'']
     = ([ShowMask (hidden_word ?g), AskGuess, SaySorry 0], Fell (?g', [''e'']))" by blast
  then have gl': "guess_loop ?g [''q'', ''e'']
     = ([ShowMask [''_ '', ''_ '', ''_ '', ''_ '', ''_ '', ''_ ''], AskGuess, SaySorry 0], Fell (?g', [''e'']))"
    by (simp add: new_round_def list_of_word_def)
  with th ch have "session_loop [''forest''] (\<lambda>k. 0) 0 1 [''q'', ''e'']
     = ([ShowMask [''_ '', ''_ '', ''_ '', ''_ '', ''_ '', ''_ ''], AskGuess, SaySorry 0] @
         [SayOutOfPoints ''forest'', SayScore 0, SayThanks], None)" by simp
  with op st gl' show ?thesis by simp
qed

text \<open>
  C10. In a round started with a positive score, at every evaluation of the loop
  condition the score is at least 0, and at least 1 when the mask shows the whole word.
  So when the inner loop falls through with the word solved, the session asks whether to
  play again; when it falls through unsolved, the score is 0 and the session ends with the
  out-of-points report.
\<close>

theorem solved_only_with_positive_score:
  assumes "0 < score" and "g \<in> set (round_states (new_round word score) ls)"
  shows "(hidden_word g = word_letters g \<longrightarrow> 1 \<le> total_score g) \<and>
         0 \<le> total_score g \<and>
         (choice words (rnd k) = Inr word \<and>
          guess_loop (new_round word score) ls = (evs, Fell (g, rest)) \<longrightarrow>
            (if hidden_word g = word_letters g
             then \<exists>evs' r. session_loop words rnd k score ls
                    = (evs @ [ShowMask (hidden_word g), SaySolved, SayScore (total_score g), AskAgain]
                         @ evs', r)
             else total_score g = 0 \<and>
                  session_loop words rnd k score ls
                    = (evs @ [SayOutOfPoints word, SayScore 0, SayThanks], None)))"
proof -
  from round_states_scored [OF scored_new_round [OF assms(1)] assms(2)]
  have sc: "0 \<le> total_score g" and pos: "hidden_word g = word_letters g \<longrightarrow> 1 \<le> total_score g"
    by (simp_all add: scored_def)
  moreover
  { assume ch: "choice words (rnd k) = Inr word"
      and gl: "guess_loop (new_round word score) ls = (evs, Fell (g, rest))"
    from guess_loop_fell [OF gl] have closed: "\<not> round_open g" by simp
    have "if hidden_word g = word_letters g
             then \<exists>evs' r. session_loop words rnd k score ls
                    = (evs @ [ShowMask (hidden_word g), SaySolved, SayScore (total_score g), AskAgain]
                         @ evs', r)
             else total_score g = 0 \<and>
                  session_loop words rnd k score ls
                    = (evs @ [SayOutOfPoints word, SayScore 0, SayThanks], None)"
    proof (cases "hidden_word g = word_letters g")
      case True
      with pos have "0 < total_score g" by simp
      from session_loop_fell(2) [of score words rnd k word ls evs g rest, OF assms(1) ch gl this] True
      show ?thesis by (simp add: round_report_def)
    next
      case False
      with closed sc have z: "total_score g = 0" by (simp add: round_open_def)
      then have "total_score g \<le> 0" by simp
      from session_loop_fell(1) [of score words rnd k word ls evs g rest, OF assms(1) ch gl this] False z
      show ?thesis by (simp add: round_report_def)
    qed }
  ultimately show ?thesis by blast
qed

theorem solved_only_with_positive_score_witness:
  "(0::int) < 5 \<and>
   \<lparr>total_score = 6, word_letters = [''a'', ''a''], guessed_letters = [''a''],
      hidden_word = [''a'', ''a'']\<rparr> \<in> set (round_states (new_round ''aa'' 5) [''a'']) \<and>
   (\<exists>evs' r. session_loop [''aa''] (\<lambda>k. 0) 0 5 [''a'']
      = ([ShowMask [''_ '', ''_ ''], AskGuess, SayRight 6] @
         [ShowMask [''a'', ''a''], SaySolved, SayScore 6, AskAgain] @ evs', r))"
proof -
  let ?g = "\<lparr>total_score = 6, word_letters = [''a'', ''a''], guessed_letters = [''a''],
      hidden_word = [''a'', ''a'']\<rparr>"
  have p: "(0::int) < 5" by simp
  have st: "guess_step ''a'' (new_round ''aa'' 5) = (Hit, ?g)"
    by (simp add: eval_defs)
  have op: "round_open (new_round ''aa'' 5)" by (simp add: eval_defs)
  have cl: "\<not> round_open ?g" by (simp add: round_open_def)
  have mem: "?g \<in> set (round_states (new_round ''aa'' 5) [''a''])"
    using st op by (simp add: round_states_Cons del: round_states.simps(2))
  have ch: "choice [''aa''] ((\<lambda>k. 0) (0::nat)) = Inr ''aa''" by (simp add: choice_def)
  have gl: "guess_loop (new_round ''aa'' 5) [''a'']
      = ([ShowMask [''_ '', ''_ ''], AskGuess, SayRight 6], Fell (?g, []))"
    using guess_loop_Cons [OF op st, of "[]"] cl
    by (simp add: guess_loop_closed new_round_def list_of_word_def)
  from solved_only_with_positive_score [OF p mem, of "[''aa'']" "\<lambda>k. 0" 0
      "[ShowMask [''_ '', ''_ ''], AskGuess, SayRight 6]" "[]"] ch gl
  have "\<exists>evs' r. session_loop [''aa''] (\<lambda>k. 0) 0 5 [''a'']
      = ([ShowMask [''_ '', ''_ ''], AskGuess, SayRight 6] @
         [ShowMask [''a'', ''a''], SaySolved, SayScore 6, AskAgain] @ evs', r)"
    by simp
  with p mem show ?thesis by blast
qed

section \<open>The dictionary of counts\<close>

lemma map_of_dict_set: "map_of (dict_set k v d) = (map_of d)(k \<mapsto> v)"
  by (induction d) (auto simp: fun_eq_iff)

lemma keys_dict_set:
  "map fst (dict_set k v d) = (if k \<in> set (map fst d) then map fst d else map fst d @ [k])"
  by (induction d) auto

lemma dict_set_new: "k \<notin> set (map fst d) \<Longrightarrow> dict_set k v d = d @ [(k, v)]"
  by (induction d) auto

lemma distinct_keys_dict_set: "distinct (map fst d) \<Longrightarrow> distinct (map fst (dict_set k v d))"
  by (simp add: keys_dict_set)

lemma zero_counts_fold:
  "distinct (map fst d) \<Longrightarrow>
   distinct (map fst (fold (\<lambda>noun noun_dict. dict_set noun 0 noun_dict) ns d)) \<and>
   map_of (fold (\<lambda>noun noun_dict. dict_set noun (0::int) noun_dict) ns d)
     = (\<lambda>k. if k \<in> set ns then Some 0 else map_of d k)"
proof (induction ns arbitrary: d)
  case Nil
  then show ?case by simp
next
  case (Cons n ns)
  from Cons.IH [OF distinct_keys_dict_set [OF Cons.prems], of n 0]
  show ?case by (auto simp: map_of_dict_set fun_eq_iff)
qed

lemma distinct_zero_counts: "distinct (map fst (zero_counts ns))"
  using zero_counts_fold [of "[]" ns] by (simp add: zero_counts_def)

lemma map_of_zero_counts: "map_of (zero_counts ns) k = (if k \<in> set ns then Some 0 else None)"
  using zero_counts_fold [of "[]" ns] by (simp add: zero_counts_def)

lemma keys_count_token: "map fst (count_token t d) = map fst d"
proof (cases "map_of d t")
  case None
  then show ?thesis by (simp add: count_token_def)
next
  case (Some c)
  then have "t \<in> set (map fst d)" by (metis map_of_eq_None_iff option.distinct(1) set_map)
  with Some show ?thesis by (simp add: count_token_def keys_dict_set)
qed

lemma map_of_count_token:
  "map_of (count_token t d) k =
     (case map_of d k of None \<Rightarrow> None | Some c \<Rightarrow> Some (if k = t then c + 1 else c))"
  by (cases "map_of d t") (auto simp: count_token_def map_of_dict_set split: option.splits)

lemma fold_count_token:
  "map fst (fold count_token ts d) = map fst d \<and>
   map_of (fold count_token ts d) k =
     (case map_of d k of None \<Rightarrow> None | Some c \<Rightarrow> Some (c + int (count_list ts k)))"
proof (induction ts arbitrary: d)
  case Nil
  then show ?case by (simp split: option.splits)
next
  case (Cons t ts)
  show ?case
    by (simp add: Cons.IH keys_count_token map_of_count_token split: option.splits)
qed

lemma keys_count_nouns: "map fst (count_nouns tokens noun_list) = map fst (zero_counts noun_list)"
  by (simp add: count_nouns_def fold_count_token)

lemma distinct_count_nouns: "distinct (map fst (count_nouns tokens noun_list))"
  by (simp add: keys_count_nouns distinct_zero_counts)

lemma map_of_count_nouns:
  "map_of (count_nouns tokens noun_list) k =
     (if k \<in> set noun_list then Some (int (count_list tokens k)) else None)"
  by (simp add: count_nouns_def fold_count_token map_of_zero_counts)

lemma keys_zero_counts_distinct: "distinct ns \<Longrightarrow> map fst (zero_counts ns) = ns"
proof -
  have "distinct (map fst d @ ns) \<Longrightarrow>
        map fst (fold (\<lambda>noun noun_dict. dict_set noun (0::int) noun_dict) ns d) = map fst d @ ns" for d
  proof (induction ns arbitrary: d)
    case Nil
    then show ?case by simp
  next
    case (Cons n ns)
    from Cons.prems have "n \<notin> set (map fst d)" by auto
    then have k: "map fst (dict_set n (0::int) d) = map fst d @ [n]" by (simp add: keys_dict_set)
    with Cons.prems have "distinct (map fst (dict_set n (0::int) d) @ ns)" by simp
    from Cons.IH [OF this] k show ?case by simp
  qed
  from this [of "[]"] show "distinct ns \<Longrightarrow> map fst (zero_counts ns) = ns"
    by (simp add: zero_counts_def)
qed

lemma fold_dict_set_distinct:
  "distinct (map fst d @ map (\<lambda>i. fst (f i)) is) \<Longrightarrow>
   fold (\<lambda>i d. dict_set (fst (f i)) (snd (f i)) d) is d = d @ map f is"
proof (induction "is" arbitrary: d)
  case Nil
  then show ?case by simp
next
  case (Cons i "is")
  from Cons.prems have "fst (f i) \<notin> set (map fst d)" by auto
  then have k: "dict_set (fst (f i)) (snd (f i)) d = d @ [f i]" by (simp add: dict_set_new)
  with Cons.prems have "distinct (map fst (dict_set (fst (f i)) (snd (f i)) d) @ map (\<lambda>i. fst (f i)) is)"
    by simp
  from Cons.IH [OF this] k show ?case by simp
qed

lemma count_nouns_no_nouns: "count_nouns tokens [] = []"
proof -
  have "map fst (count_nouns tokens []) = []"
    by (simp add: keys_count_nouns zero_counts_def)
  then show ?thesis by simp
qed

lemma count_nouns_cat_dog:
  "count_nouns [''cat'', ''dog'', ''cat'', ''bird'', ''cat''] [''cat'', ''dog'']
     = [(''cat'', 3), (''dog'', 1)]"
  by code_simp

lemma count_nouns_no_tokens:
  "count_nouns [] [''cat'', ''dog''] = [(''cat'', 0), (''dog'', 0)]"
  by code_simp

section \<open>The ranking\<close>

lemma argsort_ok_indices:
  assumes "sort idx = [0..<n]"
  shows "set idx = {0..<n}" and "distinct idx" and "length idx = n"
proof -
  have "set idx = set (sort idx)" by simp
  with assms show "set idx = {0..<n}" by simp
  have "distinct (sort idx)" using assms by simp
  then show "distinct idx" by simp
  have "length idx = length (sort idx)" by simp
  with assms show "length idx = n" by simp
qed

lemma make_dict_shape:
  assumes "sort (argsort (map snd (count_nouns tokens noun_list)))
             = [0..<length (count_nouns tokens noun_list)]"
  shows "make_dict argsort tokens noun_list =
           Inr (take 50 (map (\<lambda>i. fst (count_nouns tokens noun_list ! i))
                  (rev (argsort (map snd (count_nouns tokens noun_list))))))"
proof -
  let ?nd = "count_nouns tokens noun_list"
  let ?idx = "rev (argsort (map snd ?nd))"
  from argsort_ok_indices [OF assms]
  have s: "set ?idx = {0..<length ?nd}" and d: "distinct ?idx" by simp_all
  from s have inr: "list_all (\<lambda>i. i < length ?nd) ?idx" by (auto simp: list_all_iff)
  have "inj_on (\<lambda>i. fst (?nd ! i)) (set ?idx)"
  proof (rule inj_onI)
    fix i j assume "i \<in> set ?idx" "j \<in> set ?idx" and e: "fst (?nd ! i) = fst (?nd ! j)"
    with s have "i < length (map fst ?nd)" "j < length (map fst ?nd)" by simp_all
    moreover from this e have "map fst ?nd ! i = map fst ?nd ! j" by simp
    ultimately show "i = j"
      using nth_eq_iff_index_eq [OF distinct_count_nouns [of tokens noun_list], of i j] by simp
  qed
  with d have "distinct (map (\<lambda>i. fst (?nd ! i)) ?idx)" by (simp add: distinct_map)
  then have "fold (\<lambda>i d. dict_set (fst (?nd ! i)) (snd (?nd ! i)) d) ?idx [] = map (\<lambda>i. ?nd ! i) ?idx"
    using fold_dict_set_distinct [of "[]" "\<lambda>i. ?nd ! i" ?idx] by simp
  with inr show ?thesis by (simp add: make_dict_def Let_def comp_def)
qed

lemma insort_key_ties:
  assumes "sorted_wrt (\<lambda>i j. f i < f j \<or> (f i = f j \<and> i < j)) ys" and "\<forall>y \<in> set ys. x < y"
  shows "sorted_wrt (\<lambda>i j. f i < f j \<or> (f i = f j \<and> i < j)) (insort_key f x ys)"
  using assms
proof (induction ys)
  case Nil
  then show ?case by simp
next
  case (Cons y ys)
  show ?case
  proof (cases "f x \<le> f y")
    case True
    with Cons.prems show ?thesis by (auto simp: less_le)
  next
    case False
    with Cons show ?thesis by (auto simp: set_insort_key)
  qed
qed

lemma sort_key_ties:
  fixes f :: "nat \<Rightarrow> int"
  shows "sorted_wrt (<) xs \<Longrightarrow> sorted_wrt (\<lambda>i j. f i < f j \<or> (f i = f j \<and> i < j)) (sort_key f xs)"
proof (induction xs)
  case Nil
  then show ?case by simp
next
  case (Cons x xs)
  then show ?case by (simp add: insort_key_ties)
qed

lemma insertion_argsort_ok: "argsort_ok insertion_argsort vs"
proof -
  have "sort (sort_key (\<lambda>i. vs ! i) [0..<length vs]) = [0..<length vs]"
    by (rule sorted_distinct_set_unique) simp_all
  then show ?thesis by (simp add: argsort_ok_def insertion_argsort_def)
qed

lemma insertion_argsort_stable: "argsort_stable insertion_argsort vs"
proof -
  have "sorted_wrt (\<lambda>i j. vs ! i < vs ! j \<or> (vs ! i = vs ! j \<and> i < j))
          (sort_key (\<lambda>i. vs ! i) [0..<length vs])"
    by (rule sort_key_ties) simp
  then have "sorted_wrt (\<lambda>i j. vs ! i = vs ! j \<longrightarrow> i < j) (sort_key (\<lambda>i. vs ! i) [0..<length vs])"
    by (rule sorted_wrt_mono_rel [rotated]) auto
  then show ?thesis by (simp add: argsort_stable_def insertion_argsort_def)
qed

lemma two_indices:
  fixes xs :: "nat list"
  assumes "sort xs = [0, 1]"
  shows "xs = [0, 1] \<or> xs = [1, 0]"
proof -
  have "[0..<2] = [0, 1::nat]" by (simp add: upt_rec)
  with assms have "sort xs = [0..<2]" by simp
  from argsort_ok_indices [OF this]
  have s: "set xs = {0..<2}" and d: "distinct xs" and l: "length xs = 2" by simp_all
  from l obtain a b where ab: "xs = [a, b]"
    by (auto simp: length_Suc_conv numeral_2_eq_2)
  with s d have "a \<noteq> b" "a < 2" "b < 2" by auto
  then have "(a = 0 \<and> b = 1) \<or> (a = 1 \<and> b = 0)" by auto
  with ab show ?thesis by simp
qed

text \<open>
  C5. The count stored for a noun of the noun list is the number of occurrences of that
  very string among the tokens, and no other string is a key. For the nouns cat, dog and
  the tokens cat, dog, cat, bird, cat the counts are 3 and 1, and the ranking is cat, dog
  whatever order \<open>argsort\<close> gives to equal values.
\<close>

theorem counts_by_surface_form:
  "map_of (count_nouns tokens noun_list) noun
     = (if noun \<in> set noun_list then Some (int (count_list tokens noun)) else None) \<and>
   map_of (count_nouns [''cat'', ''dog'', ''cat'', ''bird'', ''cat''] [''cat'', ''dog'']) ''cat''
     = Some 3 \<and>
   map_of (count_nouns [''cat'', ''dog'', ''cat'', ''bird'', ''cat''] [''cat'', ''dog'']) ''dog''
     = Some 1 \<and>
   (argsort_ok argsort [3, 1] \<longrightarrow>
      make_dict argsort [''cat'', ''dog'', ''cat'', ''bird'', ''cat''] [''cat'', ''dog'']
        = Inr [''cat'', ''dog''])"
proof -
  let ?ts = "[''cat'', ''dog'', ''cat'', ''bird'', ''cat'']"
  let ?ns = "[''cat'', ''dog'']"
  have "make_dict argsort ?ts ?ns = Inr [''cat'', ''dog'']" if ok: "argsort_ok argsort [3, 1]"
  proof -
    from ok have perm: "sort (argsort [3, 1]) = [0, 1]"
      and asc: "sorted (map (\<lambda>i. [3, 1 :: int] ! i) (argsort [3, 1]))"
      by (simp_all add: argsort_ok_def)
    from two_indices [OF perm] asc have res: "argsort [3, 1] = [1, 0]" by auto
    from perm have "sort (argsort (map snd (count_nouns ?ts ?ns))) = [0..<length (count_nouns ?ts ?ns)]"
      by (simp add: count_nouns_cat_dog)
    from make_dict_shape [of argsort ?ts ?ns, OF this] res show ?thesis
      by (simp add: count_nouns_cat_dog)
  qed
  then show ?thesis
    by (simp add: map_of_count_nouns count_nouns_cat_dog)
qed

theorem counts_by_surface_form_witness:
  "argsort_ok insertion_argsort [3, 1] \<and>
   make_dict insertion_argsort [''cat'', ''dog'', ''cat'', ''bird'', ''cat''] [''cat'', ''dog'']
     = Inr [''cat'', ''dog''] \<and>
   map_of (count_nouns [''cat'', ''cat''] [''cat'', ''dog'']) ''dog'' = Some 0"
  using counts_by_surface_form [of "[''cat'', ''cat'']" "[''cat'', ''dog'']" "''dog''" insertion_argsort]
    insertion_argsort_ok [of "[3, 1]"]
  by simp

text \<open>
  C4, as amended. The ranking lists the keys at a permutation of their positions in the
  dictionary, cut to 50, with counts descending. Keys with equal counts come in the
  reverse of the order \<open>argsort\<close> gives them: with a stable \<open>argsort\<close> the key
  inserted later comes first. The positions in the dictionary are the positions in the
  noun list when that has no duplicates.
\<close>

theorem ranking_descending_ties_reversed:
  assumes "argsort_ok argsort (map snd (count_nouns tokens noun_list))"
  shows "\<exists>idx. sort idx = [0..<length (count_nouns tokens noun_list)] \<and>
           make_dict argsort tokens noun_list
             = Inr (take 50 (map (\<lambda>i. fst (count_nouns tokens noun_list ! i)) idx)) \<and>
           sorted_wrt (\<lambda>i j. snd (count_nouns tokens noun_list ! j)
                              \<le> snd (count_nouns tokens noun_list ! i)) idx \<and>
           (argsort_stable argsort (map snd (count_nouns tokens noun_list)) \<longrightarrow>
              sorted_wrt (\<lambda>i j. snd (count_nouns tokens noun_list ! i)
                                   = snd (count_nouns tokens noun_list ! j) \<longrightarrow> j < i) idx) \<and>
           (distinct noun_list \<longrightarrow> map fst (count_nouns tokens noun_list) = noun_list)"
proof -
  let ?nd = "count_nouns tokens noun_list"
  let ?res = "argsort (map snd ?nd)"
  from assms have perm: "sort ?res = [0..<length ?nd]"
    and asc: "sorted (map (\<lambda>i. map snd ?nd ! i) ?res)"
    by (simp_all add: argsort_ok_def)
  from argsort_ok_indices [OF perm] have inr: "set ?res = {0..<length ?nd}" by simp
  from argsort_ok_indices [OF perm] have dis: "distinct ?res" by simp
  have "sort (rev ?res) = [0..<length ?nd]"
    by (rule sorted_distinct_set_unique) (simp_all add: dis inr)
  moreover have "make_dict argsort tokens noun_list
             = Inr (take 50 (map (\<lambda>i. fst (?nd ! i)) (rev ?res)))"
    using perm by (rule make_dict_shape [of argsort tokens noun_list])
  moreover have "sorted_wrt (\<lambda>i j. snd (?nd ! j) \<le> snd (?nd ! i)) (rev ?res)"
  proof -
    from asc have "sorted_wrt (\<lambda>i j. map snd ?nd ! i \<le> map snd ?nd ! j) ?res"
      by (simp add: sorted_map)
    then have "sorted_wrt (\<lambda>i j. snd (?nd ! i) \<le> snd (?nd ! j)) ?res"
      by (rule sorted_wrt_mono_rel [rotated]) (use inr in auto)
    then show ?thesis by (simp add: sorted_wrt_rev)
  qed
  moreover have "sorted_wrt (\<lambda>i j. snd (?nd ! i) = snd (?nd ! j) \<longrightarrow> j < i) (rev ?res)"
    if "argsort_stable argsort (map snd ?nd)"
  proof -
    from that have "sorted_wrt (\<lambda>i j. map snd ?nd ! i = map snd ?nd ! j \<longrightarrow> i < j) ?res"
      by (simp add: argsort_stable_def)
    then have "sorted_wrt (\<lambda>i j. snd (?nd ! j) = snd (?nd ! i) \<longrightarrow> i < j) ?res"
      by (rule sorted_wrt_mono_rel [rotated]) (use inr in auto)
    then show ?thesis by (simp add: sorted_wrt_rev)
  qed
  moreover have "map fst ?nd = noun_list" if "distinct noun_list"
    using that by (simp add: keys_count_nouns keys_zero_counts_distinct)
  ultimately show ?thesis by blast
qed

theorem ranking_descending_ties_reversed_witness:
  "argsort_ok insertion_argsort (map snd (count_nouns [] [''cat'', ''dog''])) \<and>
   argsort_stable insertion_argsort (map snd (count_nouns [] [''cat'', ''dog''])) \<and>
   make_dict insertion_argsort [] [''cat'', ''dog''] = Inr [''dog'', ''cat'']"
proof -
  let ?nd = "count_nouns [] [''cat'', ''dog'']"
  have ok: "argsort_ok insertion_argsort (map snd ?nd)" by (rule insertion_argsort_ok)
  have st: "argsort_stable insertion_argsort (map snd ?nd)" by (rule insertion_argsort_stable)
  from ranking_descending_ties_reversed [OF ok] st
  obtain idx where perm: "sort idx = [0..<length ?nd]"
    and out: "make_dict insertion_argsort [] [''cat'', ''dog'']
                = Inr (take 50 (map (\<lambda>i. fst (?nd ! i)) idx))"
    and ties: "sorted_wrt (\<lambda>i j. snd (?nd ! i) = snd (?nd ! j) \<longrightarrow> j < i) idx"
    by blast
  from perm have "sort idx = [0, 1]" by (simp add: count_nouns_no_tokens)
  from two_indices [OF this] ties have "idx = [1, 0]"
    by (auto simp: count_nouns_no_tokens)
  with out have "make_dict insertion_argsort [] [''cat'', ''dog''] = Inr [''dog'', ''cat'']"
    by (simp add: count_nouns_no_tokens)
  with ok st show ?thesis by blast
qed

text \<open>
  With no tokens, cat and dog both have the count 0, and the ranking puts dog, inserted
  second, before cat.
\<close>

theorem ties_not_in_insertion_order:
  "count_nouns [] [''cat'', ''dog''] = [(''cat'', 0), (''dog'', 0)] \<and>
   make_dict insertion_argsort [] [''cat'', ''dog''] = Inr [''dog'', ''cat'']"
  by code_simp

text \<open>
  C9. With an empty noun list the ranking is empty, and the game on an empty vocabulary
  prints its banner and stops with the \<open>IndexError\<close> of \<open>random.choice\<close>: nothing
  is asked of the player.
\<close>

theorem empty_vocabulary_aborts:
  assumes "argsort_ok argsort []"
  shows "make_dict argsort tokens [] = Inr [] \<and>
         guessing_game [] rnd ls = ([SayBanner], Some IndexError)"
proof -
  from assms have "sort (argsort []) = [0..<0]" by (simp add: argsort_ok_def)
  from argsort_ok_indices(3) [OF this] have "argsort [] = []" by simp
  then have "make_dict argsort tokens [] = Inr []"
    by (simp add: make_dict_def count_nouns_no_nouns)
  moreover have "guessing_game [] rnd ls = ([SayBanner], Some IndexError)"
    by (simp add: guessing_game_def choice_def)
  ultimately show ?thesis by simp
qed

theorem empty_vocabulary_aborts_witness:
  "argsort_ok insertion_argsort [] \<and>
   make_dict insertion_argsort [''garden''] [] = Inr [] \<and>
   guessing_game [] (\<lambda>k. 0) [''g'', ''y''] = ([SayBanner], Some IndexError)"
  using empty_vocabulary_aborts [OF insertion_argsort_ok [of "[]"], of "[''garden'']" "\<lambda>k. 0" "[''g'', ''y'']"]
    insertion_argsort_ok [of "[]"]
  by simp

section \<open>The report of the first 20 tagged lemmas\<close>

lemma print_tags_result:
  "snd (print_tags tags_list is)
     = (if list_all (\<lambda>i. i < length tags_list) is then None else Some IndexError)"
  by (induction "is") (auto split: prod.splits)

lemma first_20_result:
  "snd (first_20 tags_list) = (if 20 \<le> length tags_list then None else Some IndexError)"
  by (auto simp: first_20_def print_tags_result list_all_iff)

text \<open>
  C6. On a tagged list with a single entry the report prints that entry and then raises
  \<open>IndexError\<close>, and \<open>preprocess\<close> ends with that exception: the loop reads 20
  entries whatever the length of the list.
\<close>

theorem first_20_raises_on_short_list:
  "first_20 [(''garden'', ''NN'')] = ([LemmaTag ''garden'' ''NN''], Some IndexError) \<and>
   preprocess [] (\<lambda>token. token) remdups (map (\<lambda>lemma. (lemma, ''NN''))) [''garden'']
     = ([LemmaTag ''garden'' ''NN''], Inl IndexError)"
  by code_simp

section \<open>Runs with different set orders\<close>

lemma preprocess_tokens:
  assumes "snd (preprocess stopWords lemmatize set_order pos_tag raw_tokens) = Inr (tokens, noun_list)"
  shows "tokens = filter (\<lambda>token. token \<notin> set stopWords)
                    (filter (\<lambda>token. isalpha token \<and> length token > 5) raw_tokens)"
  using assms by (auto simp: preprocess_def Let_def split: prod.splits option.splits)

text \<open>
  C3. Two runs on the same raw tokens may list the distinct lemmas in different orders.
  When both reach the ranking with the same noun list, they hand it the same tokens and
  the ranking is the same.
\<close>

lemma count_nouns_same_set:
  "set ns1 = set ns2 \<Longrightarrow> map_of (count_nouns tokens ns1) = map_of (count_nouns tokens ns2)"
  by (simp add: fun_eq_iff map_of_count_nouns)

lemma count_nouns_same_pairs:
  assumes "set ns1 = set ns2"
  shows "set (count_nouns tokens ns1) = set (count_nouns tokens ns2)"
    and "mset (map snd (count_nouns tokens ns1)) = mset (map snd (count_nouns tokens ns2))"
proof -
  let ?nd1 = "count_nouns tokens ns1" and ?nd2 = "count_nouns tokens ns2"
  have d1: "distinct (map fst ?nd1)" and d2: "distinct (map fst ?nd2)"
    by (rule distinct_count_nouns)+
  from count_nouns_same_set [OF assms] show s: "set ?nd1 = set ?nd2"
    using map_of_inject_set [OF d1 d2] by simp
  from d1 d2 have "distinct ?nd1" "distinct ?nd2" by (simp_all add: distinct_map)
  with s have "mset ?nd1 = mset ?nd2" by (simp add: set_eq_iff_mset_eq_distinct)
  then have "image_mset snd (mset ?nd1) = image_mset snd (mset ?nd2)" by simp
  then show "mset (map snd ?nd1) = mset (map snd ?nd2)" by simp
qed

lemma ranked_pairs:
  assumes "argsort_ok argsort (map snd nd)"
  shows "map snd (map (\<lambda>i. nd ! i) (rev (argsort (map snd nd)))) = rev (sort (map snd nd))"
    and "set (map (\<lambda>i. nd ! i) (rev (argsort (map snd nd)))) = set nd"
proof -
  let ?vals = "map snd nd"
  let ?res = "argsort ?vals"
  from assms have perm: "sort ?res = [0..<length nd]"
    and asc: "sorted (map (\<lambda>i. ?vals ! i) ?res)"
    by (simp_all add: argsort_ok_def)
  from argsort_ok_indices [OF perm] have inr: "set ?res = {0..<length nd}" by simp
  have "mset ?res = mset (sort ?res)" by simp
  with perm have m: "mset ?res = mset [0..<length nd]" by simp
  have "mset (map (\<lambda>i. ?vals ! i) ?res) = image_mset (\<lambda>i. ?vals ! i) (mset ?res)" by simp
  also have "\<dots> = mset (map (\<lambda>i. ?vals ! i) [0..<length ?vals])" by (simp add: m)
  also have "\<dots> = mset ?vals" by (simp only: map_nth)
  finally have "sort ?vals = map (\<lambda>i. ?vals ! i) ?res"
    using asc by (intro properties_for_sort) simp_all
  moreover have "map (\<lambda>i. ?vals ! i) ?res = map (\<lambda>i. snd (nd ! i)) ?res"
    using inr by (intro map_cong) auto
  ultimately show "map snd (map (\<lambda>i. nd ! i) (rev ?res)) = rev (sort ?vals)"
    by (simp add: rev_map comp_def)
  have "set (map (\<lambda>i. nd ! i) (rev ?res)) = (\<lambda>i. nd ! i) ` {0..<length nd}"
    using inr by simp
  also have "\<dots> = set nd" by (auto simp: set_conv_nth)
  finally show "set (map (\<lambda>i. nd ! i) (rev ?res)) = set nd" .
qed

lemma make_dict_pairs:
  assumes "argsort_ok argsort (map snd (count_nouns tokens noun_list))"
  shows "make_dict argsort tokens noun_list =
           Inr (take 50 (map fst (map (\<lambda>i. count_nouns tokens noun_list ! i)
                  (rev (argsort (map snd (count_nouns tokens noun_list)))))))"
proof -
  from assms have "sort (argsort (map snd (count_nouns tokens noun_list)))
             = [0..<length (count_nouns tokens noun_list)]"
    by (simp add: argsort_ok_def)
  then show ?thesis
    by (simp add: make_dict_shape [of argsort tokens noun_list] comp_def)
qed

lemma ranking_same_nouns:
  assumes same: "set ns1 = set ns2"
    and ok1: "argsort_ok argsort (map snd (count_nouns tokens ns1))"
    and ok2: "argsort_ok argsort (map snd (count_nouns tokens ns2))"
  shows "\<exists>out1 out2.
           make_dict argsort tokens ns1 = Inr out1 \<and>
           make_dict argsort tokens ns2 = Inr out2 \<and>
           map (map_of (count_nouns tokens ns1)) out1 = map (map_of (count_nouns tokens ns2)) out2 \<and>
           (distinct (map snd (count_nouns tokens ns1)) \<longrightarrow> out1 = out2)"
proof -
  let ?nd1 = "count_nouns tokens ns1" and ?nd2 = "count_nouns tokens ns2"
  let ?ps1 = "map (\<lambda>i. ?nd1 ! i) (rev (argsort (map snd ?nd1)))"
  let ?ps2 = "map (\<lambda>i. ?nd2 ! i) (rev (argsort (map snd ?nd2)))"
  have d1: "distinct (map fst ?nd1)" and d2: "distinct (map fst ?nd2)"
    by (rule distinct_count_nouns)+
  note p1 = ranked_pairs [OF ok1] and p2 = ranked_pairs [OF ok2]
  from count_nouns_same_pairs [OF same, of tokens]
  have sp: "set ?nd1 = set ?nd2" and ms: "mset (map snd ?nd1) = mset (map snd ?nd2)" by simp_all
  from ms have "sort (map snd ?nd1) = sort (map snd ?nd2)"
    by (intro properties_for_sort) simp_all
  with p1(1) p2(1) have cs: "map snd ?ps1 = map snd ?ps2" by simp
  have look1: "map (map_of ?nd1) (map fst ?ps1) = map Some (map snd ?ps1)"
    unfolding map_map using p1(2) d1 by (intro map_cong refl) auto
  have look2: "map (map_of ?nd2) (map fst ?ps2) = map Some (map snd ?ps2)"
    unfolding map_map using p2(2) d2 by (intro map_cong refl) auto
  have counts: "map (map_of ?nd1) (take 50 (map fst ?ps1)) = map (map_of ?nd2) (take 50 (map fst ?ps2))"
    using look1 look2 cs by (simp only: take_map [symmetric])
  have same_out: "take 50 (map fst ?ps1) = take 50 (map fst ?ps2)"
    if dis: "distinct (map snd ?nd1)"
  proof -
    from dis have "inj_on snd (set ?nd1)" by (simp add: distinct_map)
    with p1(2) p2(2) sp have "inj_on snd (set ?ps1 \<union> set ?ps2)" by simp
    from inj_on_map_eq_map [OF this] cs have "?ps1 = ?ps2" by simp
    then show ?thesis by simp
  qed
  from make_dict_pairs [OF ok1] make_dict_pairs [OF ok2] counts same_out
  show ?thesis by blast
qed

text \<open>
  With equal counts throughout and at most 50 keys, the ranking tells two orders of the
  keys apart, whatever \<open>argsort\<close> does with equal values.
\<close>

lemma ranking_follows_key_order:
  assumes ok: "argsort_ok argsort (map snd (count_nouns tokens ns1))"
    and vals: "map snd (count_nouns tokens ns1) = map snd (count_nouns tokens ns2)"
    and keys: "map fst (count_nouns tokens ns1) \<noteq> map fst (count_nouns tokens ns2)"
    and short: "length (count_nouns tokens ns1) \<le> 50"
  shows "make_dict argsort tokens ns1 \<noteq> make_dict argsort tokens ns2"
proof
  let ?nd1 = "count_nouns tokens ns1" and ?nd2 = "count_nouns tokens ns2"
  let ?idx = "rev (argsort (map snd ?nd1))"
  assume eq: "make_dict argsort tokens ns1 = make_dict argsort tokens ns2"
  from vals have len: "length ?nd1 = length ?nd2" by (metis length_map)
  from ok have perm: "sort (argsort (map snd ?nd1)) = [0..<length ?nd1]"
    by (simp add: argsort_ok_def)
  from argsort_ok_indices [OF perm]
  have s: "set ?idx = {0..<length ?nd1}" and l: "length ?idx = length ?nd1" by simp_all
  from perm vals len have perm2: "sort (argsort (map snd ?nd2)) = [0..<length ?nd2]" by simp
  from make_dict_shape [of argsort tokens ns1, OF perm] make_dict_shape [of argsort tokens ns2, OF perm2]
    eq vals
  have "take 50 (map (\<lambda>i. fst (?nd1 ! i)) ?idx) = take 50 (map (\<lambda>i. fst (?nd2 ! i)) ?idx)"
    by simp
  with l short have "map (\<lambda>i. fst (?nd1 ! i)) ?idx = map (\<lambda>i. fst (?nd2 ! i)) ?idx" by simp
  with s have "\<forall>i < length ?nd1. fst (?nd1 ! i) = fst (?nd2 ! i)" by (auto simp: map_eq_conv)
  with len have "map fst ?nd1 = map fst ?nd2" by (intro nth_equalityI) simp_all
  with keys show False by simp
qed

text \<open>
  C3, as amended. Two runs on the same raw tokens may list the distinct lemmas in
  different orders, and the noun list follows that order. When both runs reach the ranking
  with the same nouns, in whatever order, they hand it the same tokens, every noun has
  the same count in both, and the two rankings show the same sequence of counts. The
  rankings are the same list when no two nouns have equal counts, or when the noun lists
  are in the same order; nouns with equal counts may change places between the runs.
\<close>

theorem ranking_fixed_up_to_ties:
  assumes "snd (preprocess stopWords lemmatize set_order1 pos_tag raw_tokens) = Inr (tokens1, noun_list1)"
    and "snd (preprocess stopWords lemmatize set_order2 pos_tag raw_tokens) = Inr (tokens2, noun_list2)"
    and "set noun_list1 = set noun_list2"
    and "argsort_ok argsort (map snd (count_nouns tokens1 noun_list1))"
    and "argsort_ok argsort (map snd (count_nouns tokens2 noun_list2))"
  shows "tokens1 = tokens2 \<and>
         map_of (count_nouns tokens1 noun_list1) = map_of (count_nouns tokens2 noun_list2) \<and>
         (\<exists>out1 out2.
            ranked_vocabulary stopWords lemmatize set_order1 pos_tag argsort raw_tokens = Inr out1 \<and>
            ranked_vocabulary stopWords lemmatize set_order2 pos_tag argsort raw_tokens = Inr out2 \<and>
            map (map_of (count_nouns tokens1 noun_list1)) out1
              = map (map_of (count_nouns tokens2 noun_list2)) out2 \<and>
            (distinct (map snd (count_nouns tokens1 noun_list1)) \<longrightarrow> out1 = out2) \<and>
            (noun_list1 = noun_list2 \<longrightarrow> out1 = out2))"
proof -
  from preprocess_tokens [OF assms(1)] preprocess_tokens [OF assms(2)]
  have t: "tokens1 = tokens2" by simp
  from assms(3) have c: "map_of (count_nouns tokens1 noun_list1) = map_of (count_nouns tokens1 noun_list2)"
    by (rule count_nouns_same_set)
  from assms(5) t have ok2: "argsort_ok argsort (map snd (count_nouns tokens1 noun_list2))" by simp
  from ranking_same_nouns [OF assms(3) assms(4) ok2]
  obtain out1 out2 where o1: "make_dict argsort tokens1 noun_list1 = Inr out1"
    and o2: "make_dict argsort tokens1 noun_list2 = Inr out2"
    and cs: "map (map_of (count_nouns tokens1 noun_list1)) out1
              = map (map_of (count_nouns tokens1 noun_list2)) out2"
    and dis: "distinct (map snd (count_nouns tokens1 noun_list1)) \<longrightarrow> out1 = out2"
    by blast
  from o1 assms(1) have r1: "ranked_vocabulary stopWords lemmatize set_order1 pos_tag argsort raw_tokens = Inr out1"
    by (simp add: ranked_vocabulary_def)
  from o2 assms(2) t have r2: "ranked_vocabulary stopWords lemmatize set_order2 pos_tag argsort raw_tokens = Inr out2"
    by (simp add: ranked_vocabulary_def)
  from o1 o2 have eq: "noun_list1 = noun_list2 \<longrightarrow> out1 = out2" by auto
  from t c r1 r2 cs dis eq show ?thesis by (simp only:) blast
qed

theorem ranking_fixed_up_to_ties_witness:
  "snd (preprocess [''before'', ''during''] (\<lambda>token. token) remdups
          (map (\<lambda>lemma. (lemma, if lemma = ''garden'' \<or> lemma = ''forest'' then ''NN'' else ''JJ'')))
          [''the'', ''garden'', ''before'', ''forest'', ''window'',
           ''bridge'', ''castle'', ''planet'', ''rocket'', ''silver'',
           ''summer'', ''winter'', ''animal'', ''basket'', ''bottle'',
           ''button'', ''candle'', ''circle'', ''dragon'', ''engine'',
           ''flower'', ''guitar''])
     = Inr ([''garden'', ''forest'', ''window'', ''bridge'', ''castle'',
             ''planet'', ''rocket'', ''silver'', ''summer'', ''winter'',
             ''animal'', ''basket'', ''bottle'', ''button'', ''candle'',
             ''circle'', ''dragon'', ''engine'', ''flower'', ''guitar''],
            [''garden'', ''forest'']) \<and>
   snd (preprocess [''before'', ''during''] (\<lambda>token. token) (\<lambda>lemmas. rev (remdups lemmas))
          (map (\<lambda>lemma. (lemma, if lemma = ''garden'' \<or> lemma = ''forest'' then ''NN'' else ''JJ'')))
          [''the'', ''garden'', ''before'', ''forest'', ''window'',
           ''bridge'', ''castle'', ''planet'', ''rocket'', ''silver'',
           ''summer'', ''winter'', ''animal'', ''basket'', ''bottle'',
           ''button'', ''candle'', ''circle'', ''dragon'', ''engine'',
           ''flower'', ''guitar''])
     = Inr ([''garden'', ''forest'', ''window'', ''bridge'', ''castle'',
             ''planet'', ''rocket'', ''silver'', ''summer'', ''winter'',
             ''animal'', ''basket'', ''bottle'', ''button'', ''candle'',
             ''circle'', ''dragon'', ''engine'', ''flower'', ''guitar''],
            [''forest'', ''garden'']) \<and>
   set [''garden'', ''forest''] = set [''forest'', ''garden''] \<and>
   argsort_ok insertion_argsort (map snd (count_nouns
            [''garden'', ''forest'', ''window'', ''bridge'', ''castle'',
             ''planet'', ''rocket'', ''silver'', ''summer'', ''winter'',
             ''animal'', ''basket'', ''bottle'', ''button'', ''candle'',
             ''circle'', ''dragon'', ''engine'', ''flower'', ''guitar'']
            [''garden'', ''forest''])) \<and>
   argsort_ok insertion_argsort (map snd (count_nouns
            [''garden'', ''forest'', ''window'', ''bridge'', ''castle'',
             ''planet'', ''rocket'', ''silver'', ''summer'', ''winter'',
             ''animal'', ''basket'', ''bottle'', ''button'', ''candle'',
             ''circle'', ''dragon'', ''engine'', ''flower'', ''guitar'']
            [''forest'', ''garden''])) \<and>
   (\<exists>out1 out2.
      ranked_vocabulary [''before'', ''during''] (\<lambda>token. token) remdups
          (map (\<lambda>lemma. (lemma, if lemma = ''garden'' \<or> lemma = ''forest'' then ''NN'' else ''JJ''))) insertion_argsort
          [''the'', ''garden'', ''before'', ''forest'', ''window'',
           ''bridge'', ''castle'', ''planet'', ''rocket'', ''silver'',
           ''summer'', ''winter'', ''animal'', ''basket'', ''bottle'',
           ''button'', ''candle'', ''circle'', ''dragon'', ''engine'',
           ''flower'', ''guitar''] = Inr out1 \<and>
      ranked_vocabulary [''before'', ''during''] (\<lambda>token. token) (\<lambda>lemmas. rev (remdups lemmas))
          (map (\<lambda>lemma. (lemma, if lemma = ''garden'' \<or> lemma = ''forest'' then ''NN'' else ''JJ''))) insertion_argsort
          [''the'', ''garden'', ''before'', ''forest'', ''window'',
           ''bridge'', ''castle'', ''planet'', ''rocket'', ''silver'',
           ''summer'', ''winter'', ''animal'', ''basket'', ''bottle'',
           ''button'', ''candle'', ''circle'', ''dragon'', ''engine'',
           ''flower'', ''guitar''] = Inr out2 \<and>
      map (map_of (count_nouns
            [''garden'', ''forest'', ''window'', ''bridge'', ''castle'',
             ''planet'', ''rocket'', ''silver'', ''summer'', ''winter'',
             ''animal'', ''basket'', ''bottle'', ''button'', ''candle'',
             ''circle'', ''dragon'', ''engine'', ''flower'', ''guitar'']
            [''garden'', ''forest''])) out1
        = map (map_of (count_nouns
            [''garden'', ''forest'', ''window'', ''bridge'', ''castle'',
             ''planet'', ''rocket'', ''silver'', ''summer'', ''winter'',
             ''animal'', ''basket'', ''bottle'', ''button'', ''candle'',
             ''circle'', ''dragon'', ''engine'', ''flower'', ''guitar'']
            [''forest'', ''garden''])) out2)"
  (is "?run1 = Inr (?tokens, ?nouns1) \<and> ?run2 = Inr (?tokens, ?nouns2) \<and> ?same \<and> ?ok1 \<and> ?ok2 \<and> ?concl")
proof -
  have r1: "?run1 = Inr (?tokens, ?nouns1)" by code_simp
  have r2: "?run2 = Inr (?tokens, ?nouns2)" by code_simp
  have same: "set ?nouns1 = set ?nouns2" by auto
  have ok1: ?ok1 and ok2: ?ok2 by (rule insertion_argsort_ok)+
  note th = ranking_fixed_up_to_ties [OF r1 r2 same ok1 ok2, THEN conjunct2, THEN conjunct2]
  have c: ?concl
    using th by (elim exE conjE) (intro exI conjI; assumption)
  show ?thesis by (intro conjI r1 r2 same ok1 ok2 c)
qed

text \<open>
  Two runs on the same 22 raw tokens, the set of lemmas listed once in the order of the
  text and once in the reverse order: both keep the same 20 tokens and find the nouns
  garden and forest, each counted once, and the ranking is forest, garden in one run
  and garden, forest in the other.
\<close>

theorem runs_rank_differently:
  "snd (preprocess [''before'', ''during''] (\<lambda>token. token) remdups
          (map (\<lambda>lemma. (lemma, if lemma = ''garden'' \<or> lemma = ''forest'' then ''NN'' else ''JJ'')))
          [''the'', ''garden'', ''before'', ''forest'', ''window'',
           ''bridge'', ''castle'', ''planet'', ''rocket'', ''silver'',
           ''summer'', ''winter'', ''animal'', ''basket'', ''bottle'',
           ''button'', ''candle'', ''circle'', ''dragon'', ''engine'',
           ''flower'', ''guitar''])
     = Inr ([''garden'', ''forest'', ''window'', ''bridge'', ''castle'',
             ''planet'', ''rocket'', ''silver'', ''summer'', ''winter'',
             ''animal'', ''basket'', ''bottle'', ''button'', ''candle'',
             ''circle'', ''dragon'', ''engine'', ''flower'', ''guitar''],
            [''garden'', ''forest'']) \<and>
   snd (preprocess [''before'', ''during''] (\<lambda>token. token) (\<lambda>lemmas. rev (remdups lemmas))
          (map (\<lambda>lemma. (lemma, if lemma = ''garden'' \<or> lemma = ''forest'' then ''NN'' else ''JJ'')))
          [''the'', ''garden'', ''before'', ''forest'', ''window'',
           ''bridge'', ''castle'', ''planet'', ''rocket'', ''silver'',
           ''summer'', ''winter'', ''animal'', ''basket'', ''bottle'',
           ''button'', ''candle'', ''circle'', ''dragon'', ''engine'',
           ''flower'', ''guitar''])
     = Inr ([''garden'', ''forest'', ''window'', ''bridge'', ''castle'',
             ''planet'', ''rocket'', ''silver'', ''summer'', ''winter'',
             ''animal'', ''basket'', ''bottle'', ''button'', ''candle'',
             ''circle'', ''dragon'', ''engine'', ''flower'', ''guitar''],
            [''forest'', ''garden'']) \<and>
   ranked_vocabulary [''before'', ''during''] (\<lambda>token. token) remdups
          (map (\<lambda>lemma. (lemma, if lemma = ''garden'' \<or> lemma = ''forest'' then ''NN'' else ''JJ''))) insertion_argsort
          [''the'', ''garden'', ''before'', ''forest'', ''window'',
           ''bridge'', ''castle'', ''planet'', ''rocket'', ''silver'',
           ''summer'', ''winter'', ''animal'', ''basket'', ''bottle'',
           ''button'', ''candle'', ''circle'', ''dragon'', ''engine'',
           ''flower'', ''guitar'']
     = Inr [''forest'', ''garden''] \<and>
   ranked_vocabulary [''before'', ''during''] (\<lambda>token. token) (\<lambda>lemmas. rev (remdups lemmas))
          (map (\<lambda>lemma. (lemma, if lemma = ''garden'' \<or> lemma = ''forest'' then ''NN'' else ''JJ''))) insertion_argsort
          [''the'', ''garden'', ''before'', ''forest'', ''window'',
           ''bridge'', ''castle'', ''planet'', ''rocket'', ''silver'',
           ''summer'', ''winter'', ''animal'', ''basket'', ''bottle'',
           ''button'', ''candle'', ''circle'', ''dragon'', ''engine'',
           ''flower'', ''guitar'']
     = Inr [''garden'', ''forest'']"
  by code_simp

end
